theory Spec2Isabelle
  imports Complex_Main
begin

section \<open>Common vocabulary\<close>

text \<open>
  The Python exceptions that occur in the modelled code, the levels of the \<open>logging\<close>
  module, and the observable effects of the GPIO driver: a write to the pin \<open>LED_RING\<close>, a
  call of \<open>time.sleep\<close> (argument kept in milliseconds, as the source divides by 1000 only
  at the call), and a log record.
\<close>

datatype exn = OSError | TypeError | ValueError | AttributeError | IndexError | OverflowError

datatype level = DEBUG | INFO | WARNING | ERROR

datatype effect = GPIO_output bool | Sleep_ms int | Log level string

section \<open>Light ring control (\<open>minion_hat_gpio.py\<close>)\<close>

text \<open>
  The module variables of the singleton. The two safety timers are Python floats that only
  ever hold multiples of \<open>0.5\<close>, which binary floating point represents exactly, so they
  are rationals here. \<open>led_ring\<close> is the level last written to the pin \<open>LED_RING\<close>; the
  thread handle \<open>ring_thread\<close> carries no information beyond \<open>ring_alive\<close> and is left out.
\<close>

record ring =
  ring_state :: bool
  ring_on_time :: rat
  ring_off_time :: rat
  ring_flashing :: bool
  ring_flash_count :: int
  ring_flash_on_time :: int
  ring_flash_off_time :: int
  ring_alive :: bool
  flash_counter :: int
  led_ring :: bool

definition LIGHT_RING_MAX_ON_TIME :: rat where
  "LIGHT_RING_MAX_ON_TIME = 60"

definition LIGHT_RING_MIN_OFF_TIME :: rat where
  "LIGHT_RING_MIN_OFF_TIME = 5"

definition LIGHT_RING_REFRESH_DELAY :: rat where
  "LIGHT_RING_REFRESH_DELAY = 1 / 2"

text \<open>The values the module assigns at import; the pin is low before the first write.\<close>

definition ring_init :: ring where
  "ring_init =
     \<lparr>ring_state = False, ring_on_time = 0, ring_off_time = LIGHT_RING_MIN_OFF_TIME,
      ring_flashing = False, ring_flash_count = 0, ring_flash_on_time = 250,
      ring_flash_off_time = 250, ring_alive = False, flash_counter = 0, led_ring = False\<rparr>"

text \<open>
  \<open>light_ring_open_thread\<close> starts the background thread; from then on the loop body may
  run, which the step relation below enables on \<open>ring_alive\<close>.
\<close>

definition light_ring_open_thread :: "ring \<Rightarrow> ring" where
  "light_ring_open_thread s = s\<lparr>ring_alive := True\<rparr>"

definition str_bool :: "bool \<Rightarrow> string" where
  "str_bool b = (if b then ''True'' else ''False'')"

definition light_ring_set :: "bool \<Rightarrow> ring \<Rightarrow> effect list \<times> ring" where
  "light_ring_set new_state s =
     (if ring_state s = new_state then
        ([Log DEBUG (''No change in state: '' @ str_bool new_state)], s)
      else if new_state \<and> ring_off_time s < LIGHT_RING_MIN_OFF_TIME then
        ([Log WARNING ''Min off time not met. Keeping LED ring off.''], s)
      else
        (let s1 = (if \<not> ring_alive s then light_ring_open_thread s else s)
         in ([GPIO_output new_state], s1\<lparr>led_ring := new_state, ring_state := new_state\<rparr>)))"

definition light_ring_flash_set :: "int \<Rightarrow> int \<Rightarrow> int \<Rightarrow> ring \<Rightarrow> effect list \<times> ring" where
  "light_ring_flash_set count time_on time_off s =
     (let (es, s0) =
            (if ring_flashing s then
               ([Log INFO ''New flash command received. Restarting flash sequence.''],
                s\<lparr>ring_flashing := False\<rparr>)
             else ([], s));
          s1 = s0\<lparr>ring_flash_count := count, ring_flash_on_time := time_on,
                  ring_flash_off_time := time_off, flash_counter := 0, ring_flashing := True\<rparr>
      in (es, if \<not> ring_alive s1 then light_ring_open_thread s1 else s1))"

definition light_ring_close_thread :: "ring \<Rightarrow> effect list \<times> ring" where
  "light_ring_close_thread s = ([GPIO_output False], s\<lparr>ring_alive := False, led_ring := False\<rparr>)"

subsection \<open>\<open>time.sleep\<close>\<close>

text \<open>
  \<open>time.sleep\<close> raises \<open>ValueError\<close> for a negative duration and \<open>OverflowError\<close> for
  one that is beyond the range of the platform's timestamps; otherwise it returns. The
  largest duration it accepts, in milliseconds, depends on the platform and is the
  parameter \<open>sleep_max\<close> of everything that follows. (For an integer too large to be
  divided into a float the division by 1000 already raises \<open>OverflowError\<close>.)
\<close>

definition time_sleep :: "int \<Rightarrow> int \<Rightarrow> exn option" where
  "time_sleep sleep_max ms =
     (if ms < 0 then Some ValueError
      else if sleep_max < ms then Some OverflowError
      else None)"

text \<open>
  Where timestamps are signed 64-bit counts of nanoseconds the bound is the largest whole
  number of milliseconds that fits; it is smaller where \<open>time_t\<close> has 32 bits. The
  theorems hold for every bound; the concrete runs below are evaluated with this one.
\<close>

definition sleep_max_64 :: int where
  "sleep_max_64 = (2 ^ 63 - 1) div 10 ^ 6"

subsection \<open>One iteration of the loop of \<open>light_ring_run_thread\<close>\<close>

text \<open>
  The body of the \<open>while ring_alive\<close> loop: the timers, the safety check, the flash logic.
  Nothing in the thread catches an exception, so a sleep that raises ends the iteration
  where it was called, and the thread with it. The third component of a result is that
  exception, \<open>None\<close> when the code completes. The closing \<open>sleep(delta)\<close> that paces the
  loop is only called with \<open>0.05 < delta \<le> 0.5\<close> and changes no variable; it is not part
  of the model.
\<close>

definition update_timers :: "ring \<Rightarrow> ring" where
  "update_timers s =
     (if ring_state s then
        s\<lparr>ring_on_time := ring_on_time s + LIGHT_RING_REFRESH_DELAY, ring_off_time := 0\<rparr>
      else
        s\<lparr>ring_on_time := 0, ring_off_time := ring_off_time s + LIGHT_RING_REFRESH_DELAY\<rparr>)"

definition safety_check :: "ring \<Rightarrow> effect list \<times> ring" where
  "safety_check s =
     (if ring_state s \<and> LIGHT_RING_MAX_ON_TIME \<le> ring_on_time s then
        (let (es, s') = light_ring_set False s
         in (es @ [Log WARNING ''Max \"on\" time reached. Turning off light ring.''], s'))
      else ([], s))"

text \<open>
  A pulse is five statements with two sleeps among them, and the thread holds no lock: the
  main control flow can run while the thread sleeps. The pulse is therefore modelled in two
  parts. \<open>flash_pulse_on\<close> is \<open>GPIO.output(LED_RING, GPIO.HIGH)\<close> and the call of
  \<open>sleep(ring_flash_on_time / 1000)\<close>. \<open>resume_pulse\<close> is what the thread does when that
  sleep has returned: \<open>GPIO.output(LED_RING, GPIO.LOW)\<close>, \<open>sleep(ring_flash_off_time / 1000)\<close>
  and \<open>flash_counter += 1\<close>, each reading the variables as they are at that moment. A
  request is a handful of assignments and is taken as one step.
\<close>

definition flash_pulse_on :: "int \<Rightarrow> ring \<Rightarrow> effect list \<times> ring \<times> exn option" where
  "flash_pulse_on sleep_max s =
     ([GPIO_output True, Sleep_ms (ring_flash_on_time s)], s\<lparr>led_ring := True\<rparr>,
      time_sleep sleep_max (ring_flash_on_time s))"

definition resume_pulse :: "int \<Rightarrow> ring \<Rightarrow> effect list \<times> ring \<times> exn option" where
  "resume_pulse sleep_max s =
     (case time_sleep sleep_max (ring_flash_off_time s) of
        Some e \<Rightarrow>
          ([GPIO_output False, Sleep_ms (ring_flash_off_time s)], s\<lparr>led_ring := False\<rparr>, Some e)
      | None \<Rightarrow>
          ([GPIO_output False, Sleep_ms (ring_flash_off_time s)],
           s\<lparr>led_ring := False, flash_counter := flash_counter s + 1\<rparr>, None))"

text \<open>The flash logic of one iteration, when no request arrives during its sleeps.\<close>

definition flash_logic :: "int \<Rightarrow> ring \<Rightarrow> effect list \<times> ring \<times> exn option" where
  "flash_logic sleep_max s =
     (if ring_flashing s then
        (if flash_counter s < ring_flash_count s then
           (case flash_pulse_on sleep_max s of
              (es1, s1, Some e) \<Rightarrow> (es1, s1, Some e)
            | (es1, s1, None) \<Rightarrow>
                (case resume_pulse sleep_max s1 of (es2, s2, x) \<Rightarrow> (es1 @ es2, s2, x)))
         else ([], s\<lparr>ring_flashing := False, flash_counter := 0\<rparr>, None))
      else ([], s, None))"

definition light_ring_run_thread_body :: "int \<Rightarrow> ring \<Rightarrow> effect list \<times> ring \<times> exn option" where
  "light_ring_run_thread_body sleep_max s =
     (let (es1, s1) = safety_check (update_timers s);
          (es2, s2, x) = flash_logic sleep_max s1
      in (es1 @ es2, s2, x))"

text \<open>
  The loop itself, run for at most \<open>n\<close> iterations with no request arriving in between:
  it stops when \<open>ring_alive\<close> is cleared or an iteration raises.
\<close>

fun light_ring_run_thread :: "int \<Rightarrow> nat \<Rightarrow> ring \<Rightarrow> effect list \<times> ring \<times> exn option" where
  "light_ring_run_thread sleep_max 0 s = ([], s, None)"
| "light_ring_run_thread sleep_max (Suc n) s =
     (if ring_alive s then
        (case light_ring_run_thread_body sleep_max s of
           (es, s', Some e) \<Rightarrow> (es, s', Some e)
         | (es, s', None) \<Rightarrow>
             (case light_ring_run_thread sleep_max n s' of (es', r) \<Rightarrow> (es @ es', r)))
      else ([], s, None))"

subsection \<open>The controller as a step relation\<close>

text \<open>
  Requests of the main control flow and iterations of the background thread, each taken as
  one atomic step. An iteration is possible whenever \<open>ring_alive\<close> holds; that a thread
  which raised is gone is not tracked, so the reachable states below include every state
  the program reaches this way and the invariants proved of them are on the safe side.
\<close>

datatype action = Set_request bool | Flash_request int int int | Close_request | Timer_tick

fun step :: "int \<Rightarrow> action \<Rightarrow> ring \<Rightarrow> (effect list \<times> ring) option" where
  "step sleep_max (Set_request b) s = Some (light_ring_set b s)"
| "step sleep_max (Flash_request c t_on t_off) s = Some (light_ring_flash_set c t_on t_off s)"
| "step sleep_max Close_request s = Some (light_ring_close_thread s)"
| "step sleep_max Timer_tick s =
     (if ring_alive s then
        (case light_ring_run_thread_body sleep_max s of (es, s', x) \<Rightarrow> Some (es, s'))
      else None)"

fun run :: "int \<Rightarrow> action list \<Rightarrow> ring \<Rightarrow> ring option" where
  "run sleep_max [] s = Some s"
| "run sleep_max (a # as) s =
     (case step sleep_max a s of None \<Rightarrow> None | Some (es, s') \<Rightarrow> run sleep_max as s')"

inductive reachable :: "int \<Rightarrow> ring \<Rightarrow> bool" for sleep_max :: int where
  reachable_init: "reachable sleep_max ring_init"
| reachable_step:
    "reachable sleep_max s \<Longrightarrow> step sleep_max a s = Some (es, s') \<Longrightarrow> reachable sleep_max s'"

subsection \<open>Invariant and concrete states of the controller\<close>

text \<open>
  The relation between the two timers and the logical state that every step keeps: the
  timers are never negative, the on-timer is zero whenever the off-timer has started to
  count, and a ring that is logically on has an on-timer below the limit.
\<close>

definition timers_ok :: "ring \<Rightarrow> bool" where
  "timers_ok s \<longleftrightarrow>
     0 \<le> ring_on_time s \<and> 0 \<le> ring_off_time s \<and>
     (0 < ring_off_time s \<longrightarrow> ring_on_time s = 0) \<and>
     (ring_state s \<longrightarrow> ring_on_time s < LIGHT_RING_MAX_ON_TIME)"

text \<open>
  The state after \<open>light_ring_set(True)\<close>, 119 iterations of the thread and
  \<open>light_ring_flash_set(2, 500, 0)\<close>: the ring is on, the next iteration brings the
  on-timer to 60 s, and a flash sequence is pending.
\<close>

definition trip_state :: ring where
  "trip_state =
     \<lparr>ring_state = True, ring_on_time = 119 / 2, ring_off_time = 0,
      ring_flashing = True, ring_flash_count = 2, ring_flash_on_time = 500,
      ring_flash_off_time = 0, ring_alive = True, flash_counter = 0, led_ring = True\<rparr>"

text \<open>
  The state after \<open>light_ring_set(True)\<close>, one iteration, \<open>light_ring_set(False)\<close> and
  \<open>light_ring_flash_set(1, 250, 250)\<close>: the ring has just been switched off.
\<close>

definition flash_after_off_state :: ring where
  "flash_after_off_state =
     \<lparr>ring_state = False, ring_on_time = 1 / 2, ring_off_time = 0,
      ring_flashing = True, ring_flash_count = 1, ring_flash_on_time = 250,
      ring_flash_off_time = 250, ring_alive = True, flash_counter = 0, led_ring = False\<rparr>"

text \<open>The state after \<open>light_ring_set(True)\<close> on the initial state.\<close>

definition ring_on_state :: ring where
  "ring_on_state = ring_init\<lparr>ring_alive := True, led_ring := True, ring_state := True\<rparr>"

text \<open>
  What a pulse drives: the high writes and the sleeps of a trace, in their order. The events
  of a tripped safety check, which may precede the flash logic in an iteration.
\<close>

definition pulse_drive :: "effect \<Rightarrow> bool" where
  "pulse_drive e = (case e of GPIO_output b \<Rightarrow> b | Sleep_ms t \<Rightarrow> True | Log l m \<Rightarrow> False)"

definition trip_events :: "effect list" where
  "trip_events =
     [GPIO_output False, Log WARNING ''Max \"on\" time reached. Turning off light ring.'']"

text \<open>
  The thread inside a pulse: after \<open>light_ring_flash_set(3, 250, 250)\<close> on the initial
  state the first iteration has updated the timers and passed the safety check
  (\<open>pulse_due_state\<close>), then it has driven the output high and sleeps for the on time
  (\<open>mid_pulse_state\<close>).
\<close>

definition pulse_due_state :: ring where
  "pulse_due_state =
     \<lparr>ring_state = False, ring_on_time = 0, ring_off_time = 11 / 2,
      ring_flashing = True, ring_flash_count = 3, ring_flash_on_time = 250,
      ring_flash_off_time = 250, ring_alive = True, flash_counter = 0, led_ring = False\<rparr>"

definition mid_pulse_state :: ring where
  "mid_pulse_state = pulse_due_state\<lparr>led_ring := True\<rparr>"

section \<open>Recovery (\<open>recovery.py\<close>)\<close>

text \<open>
  \<open>Recovery\<close> drives two collaborators whose sources are not part of the repository's
  control logic: \<open>MinionHat\<close> (burn wire and strobe) and \<open>MinSat\<close> (GPS and satellite modem).
  A call on either is recorded with its arguments; \<open>minion_hat.ENABLE\<close> and \<open>m1.dev_off\<close>
  are passed on as the symbols they are.
\<close>

datatype hat_const = ENABLE

datatype minsat_const = dev_off

text \<open>
  \<open>Sbd_send_position verbose maintain_gps_pwr gps_timeout\<close> and
  \<open>Sbd_send_file filename verbose num_header_lines start_file_position\<close>.
\<close>

datatype call =
    Burn_wire hat_const
  | Strobe_timing int int
  | Strobe hat_const
  | Sbd_send_position bool bool int
  | Gps_pwr minsat_const
  | Modem_pwr minsat_const
  | Sbd_send_file string bool int int

text \<open>A message is an f-string: literal text and numbers.\<close>

datatype part = S string | N nat

datatype event = Call call | Logged level "part list" | Printed "part list"

text \<open>
  What the collaborators answer. A call either raises or returns: \<open>None\<close> is the normal
  return of a call without result. The \<open>k\<close>-th call (from 0) of \<open>sbd_send_position\<close>
  returns the pair of \<open>success\<close> and \<open>ret_data.valid_position\<close>, the \<open>k\<close>-th call of
  \<open>sbd_send_file\<close> the truth value of its result.
\<close>

record collaborators =
  burn_wire :: "exn option"
  strobe_timing :: "exn option"
  strobe :: "exn option"
  sbd_send_position :: "nat \<Rightarrow> exn + bool \<times> bool"
  gps_pwr :: "exn option"
  modem_pwr :: "exn option"
  sbd_send_file :: "nat \<Rightarrow> exn + bool"

text \<open>
  A method without result yields the events it caused and the exception that ended it, if
  any. \<open>seq\<close> is the semicolon: the second statement runs only when the first returned.
  Neither method of \<open>Recovery\<close> has a \<open>try\<close>, so this is the only way exceptions move.
\<close>

type_synonym proc = "event list \<times> exn option"

definition seq :: "proc \<Rightarrow> proc \<Rightarrow> proc" where
  "seq p q = (case p of (t, Some e) \<Rightarrow> (t, Some e) | (t, None) \<Rightarrow> (t @ fst q, snd q))"

definition block :: "proc list \<Rightarrow> proc" where
  "block ps = foldr seq ps ([], None)"

text \<open>\<open>logger.<level>(m)\<close> followed by \<open>print(m)\<close>, and a call on a collaborator.\<close>

definition report :: "level \<Rightarrow> part list \<Rightarrow> proc" where
  "report lvl m = ([Logged lvl m, Printed m], None)"

definition invoke :: "call \<Rightarrow> exn option \<Rightarrow> proc" where
  "invoke c r = ([Call c], r)"

definition STROBE_ON :: int where
  "STROBE_ON = 100"

definition STROBE_OFF :: int where
  "STROBE_OFF = 4900"

text \<open>The test \<open>success and ret_data.valid_position\<close>.\<close>

definition position_ok :: "bool \<times> bool \<Rightarrow> bool" where
  "position_ok r = (case r of (success, valid_position) \<Rightarrow> success \<and> valid_position)"

definition acquire_and_send_gps_position :: "collaborators \<Rightarrow> proc" where
  "acquire_and_send_gps_position w =
     block
      [report INFO [S ''Activating burn wire and strobe.''],
       invoke (Burn_wire ENABLE) (burn_wire w),
       invoke (Strobe_timing STROBE_ON STROBE_OFF) (strobe_timing w),
       invoke (Strobe ENABLE) (strobe w),
       report INFO [S ''Attempting to acquire and send GPS position.''],
       (case sbd_send_position w 0 of
          Inl e \<Rightarrow> invoke (Sbd_send_position False True 120) (Some e)
        | Inr r \<Rightarrow>
            block
             [invoke (Sbd_send_position False True 120) None,
              if position_ok r then
                report INFO
                  [S ''[OK] GPS Position Acquired and Transmitted to Iridium Successfully.'']
              else
                block
                 [report WARNING [S ''[FAILURE] GPS transmission failed. Retrying...''],
                  (case sbd_send_position w 1 of
                     Inl e \<Rightarrow> invoke (Sbd_send_position False False 120) (Some e)
                   | Inr r' \<Rightarrow>
                       block
                        [invoke (Sbd_send_position False False 120) None,
                         if position_ok r' then
                           report INFO
                             [S ''[OK] GPS Position Acquired and Transmitted Successfully on Retry.'']
                         else
                           report ERROR [S ''[FAILURE] GPS transmission failed after retry.'']])]]),
       invoke (Gps_pwr dev_off) (gps_pwr w),
       invoke (Modem_pwr dev_off) (modem_pwr w)]"

definition max_tries :: nat where
  "max_tries = 5"

function transmit_file_loop :: "collaborators \<Rightarrow> string \<Rightarrow> int \<Rightarrow> nat \<Rightarrow> proc" where
  "transmit_file_loop w filename start_file_position attempt =
     (if attempt < max_tries then
        block
         [report INFO [S ''Attempt '', N (attempt + 1), S '' - Transmitting file: '', S filename],
          (case sbd_send_file w attempt of
             Inl e \<Rightarrow> invoke (Sbd_send_file filename False 0 start_file_position) (Some e)
           | Inr ret_data \<Rightarrow>
               block
                [invoke (Sbd_send_file filename False 0 start_file_position) None,
                 if ret_data then report INFO [S ''[OK] File transmitted successfully.'']
                 else
                   block
                    [report WARNING
                       [S ''[FAILURE] Attempt '', N (attempt + 1),
                        S '' failed to transmit the file.''],
                     transmit_file_loop w filename start_file_position (attempt + 1)]])]
      else
        block
         [report ERROR
            [S ''[FAILURE] File transmission failed after '', N max_tries, S '' attempts.''],
          ([Printed [S ''[INFO] Failure due to the nature of uncertainty in the sensor.'']],
           None)])"
  by pat_completeness auto
termination
  by (relation "measure (\<lambda>(w, filename, pos, attempt). max_tries - attempt)") auto

declare transmit_file_loop.simps [simp del]

definition transmit_file :: "collaborators \<Rightarrow> string \<Rightarrow> int \<Rightarrow> proc" where
  "transmit_file w filename start_file_position =
     transmit_file_loop w filename start_file_position 0"

text \<open>
  The calls among the events of a run, the calls of \<open>sbd_send_position\<close> among calls,
  collaborators whose every call returns, and a modem whose every transmission raises.
\<close>

definition calls_of :: "event list \<Rightarrow> call list" where
  "calls_of t = concat (map (\<lambda>ev. case ev of Call c \<Rightarrow> [c] | _ \<Rightarrow> []) t)"

definition returning :: "(nat \<Rightarrow> bool \<times> bool) \<Rightarrow> (nat \<Rightarrow> bool) \<Rightarrow> collaborators" where
  "returning p f =
     \<lparr>burn_wire = None, strobe_timing = None, strobe = None,
      sbd_send_position = (\<lambda>k. Inr (p k)), gps_pwr = None, modem_pwr = None,
      sbd_send_file = (\<lambda>k. Inr (f k))\<rparr>"

definition is_send_position :: "call \<Rightarrow> bool" where
  "is_send_position c = (case c of Sbd_send_position v m t \<Rightarrow> True | _ \<Rightarrow> False)"

text \<open>
  The number of falsy results of \<open>sbd_send_file\<close> from call \<open>a\<close> on, before the first truthy
  one or the bound \<open>max_tries\<close>.
\<close>

definition failures_before_success :: "(nat \<Rightarrow> bool) \<Rightarrow> nat \<Rightarrow> nat" where
  "failures_before_success f a = length (takeWhile (\<lambda>k. \<not> f k) [a..<max_tries])"

definition modem_down :: collaborators where
  "modem_down =
     \<lparr>burn_wire = None, strobe_timing = None, strobe = None,
      sbd_send_position = (\<lambda>k. Inl OSError), gps_pwr = None, modem_pwr = None,
      sbd_send_file = (\<lambda>k. Inl OSError)\<rparr>"

text \<open>
  The exception of an answer, if it is one, and the first exception in a row of answers.
\<close>

definition raised :: "exn + 'a \<Rightarrow> exn option" where
  "raised r = (case r of Inl e \<Rightarrow> Some e | Inr v \<Rightarrow> None)"

fun first_raised :: "exn option list \<Rightarrow> exn option" where
  "first_raised [] = None"
| "first_raised (Some e # xs) = Some e"
| "first_raised (None # xs) = first_raised xs"

text \<open>
  Collaborators whose first position attempt returns without success and whose retry raises
  \<open>ValueError\<close>, and whose third file transmission raises \<open>OSError\<close> after two falsy
  results.
\<close>

definition modem_retry_down :: collaborators where
  "modem_retry_down =
     \<lparr>burn_wire = None, strobe_timing = None, strobe = None,
      sbd_send_position = (\<lambda>k. if k = 0 then Inr (False, False) else Inl ValueError),
      gps_pwr = None, modem_pwr = None,
      sbd_send_file = (\<lambda>k. if k < 2 then Inr False else Inl OSError)\<rparr>"

section \<open>Temperature and pressure sampling (\<open>tp.py\<close>, \<open>sensors/kellerLD.py\<close>)\<close>

unbundle bit_operations_syntax

text \<open>
  The Python values that a sensor's \<open>read()\<close> can hand to \<open>TP.sample\<close>. A finite
  float is the rational it denotes; \<open>nan\<close> is a value of its own.
\<close>

datatype pyval = PyNone | PyBool bool | PyFloat rat | PyNaN | PyTuple "pyval list"

text \<open>
  A \<open>KellerLD\<close> object: whether \<open>_bus\<close> is an open bus, the calibration \<open>pMin\<close>, \<open>pMax\<close>
  (\<open>None\<close> while \<open>init()\<close> has not assigned them: reading the attribute then raises
  \<open>AttributeError\<close>), and the last \<open>_pressure\<close> and \<open>_temperature\<close>. The bus answers the
  two I2C transfers of \<open>read()\<close>: either may raise, the block read returns bytes.
\<close>

record KellerLD =
  k_bus :: bool
  k_pMin :: "rat option"
  k_pMax :: "rat option"
  k_pressure :: "rat option"
  k_temperature :: "rat option"

record smbus =
  write_byte :: "exn option"
  read_i2c_block_data :: "exn + nat list"

text \<open>
  \<open>KellerLD.read\<close>. Every path that returns returns \<open>True\<close> or \<open>False\<close>; the measurement
  is stored in the object, here as the exact value of the formula, without the rounding of
  the floating-point operations; nothing below depends on it. (The warnings of \<open>read\<close> are
  not recorded.)
\<close>

definition KellerLD_read :: "KellerLD \<Rightarrow> smbus \<Rightarrow> (exn + bool) \<times> KellerLD" where
  "KellerLD_read k io =
     (if \<not> k_bus k then (Inr False, k)
      else
        (case k_pMin k of
           None \<Rightarrow> (Inl AttributeError, k)
         | Some pMin \<Rightarrow>
        (case k_pMax k of
           None \<Rightarrow> (Inl AttributeError, k)
         | Some pMax \<Rightarrow>
        (case write_byte io of
           Some e \<Rightarrow> (Inl e, k)
         | None \<Rightarrow>
        (case read_i2c_block_data io of
           Inl e \<Rightarrow> (Inl e, k)
         | Inr data \<Rightarrow>
        (case data of
           statusByte # d1 # d2 # d3 # d4 # rest \<Rightarrow>
             (let pressureRaw = push_bit 8 d1 OR d2;
                  temperatureRaw = push_bit 8 d3 OR d4
              in if statusByte AND push_bit 3 3 \<noteq> 0 then (Inr False, k)
                 else if statusByte AND push_bit 2 1 \<noteq> 0 then (Inr False, k)
                 else
                   (Inr True,
                    k\<lparr>k_pressure :=
                        Some ((of_nat pressureRaw - 16384) * (pMax - pMin) / 32768 + pMin),
                      k_temperature :=
                        Some ((of_nat (drop_bit 4 temperatureRaw) - 24) * (5 / 100) - 50)\<rparr>))
         | _ \<Rightarrow> (Inl IndexError, k)))))))"

text \<open>
  What the statements of \<open>TP.sample\<close> need of a value: the format specifications
  \<open>.4f\<close>, \<open>.3f\<close>, \<open>.2f\<close> accept a float or a bool and raise \<open>TypeError\<close> otherwise; the
  assignment \<open>p, pt = ...\<close> needs a sequence of two items (a value that is not iterable
  raises \<open>TypeError\<close>, another length \<open>ValueError\<close>); the arithmetic on \<open>p\<close> needs a
  number. The float that \<open>round(p * depth_factor - surface_offset, 3)\<close> evaluates to in
  binary floating point is not computed here: it is the parameter \<open>scaled\<close>, a function of
  the float \<open>p\<close> (a bool counts as 1.0 or 0.0).
\<close>

definition is_number :: "pyval \<Rightarrow> bool" where
  "is_number v = (case v of PyBool b \<Rightarrow> True | PyFloat q \<Rightarrow> True | PyNaN \<Rightarrow> True | _ \<Rightarrow> False)"

definition unpack2 :: "pyval \<Rightarrow> exn + pyval \<times> pyval" where
  "unpack2 v =
     (case v of
        PyTuple xs \<Rightarrow> (case xs of [a, b] \<Rightarrow> Inr (a, b) | _ \<Rightarrow> Inl ValueError)
      | _ \<Rightarrow> Inl TypeError)"

definition scale_pressure :: "(rat \<Rightarrow> rat) \<Rightarrow> pyval \<Rightarrow> exn + pyval" where
  "scale_pressure scaled p =
     (case p of
        PyFloat q \<Rightarrow> Inr (PyFloat (scaled q))
      | PyBool b \<Rightarrow> Inr (PyFloat (scaled (of_bool b)))
      | PyNaN \<Rightarrow> Inr PyNaN
      | _ \<Rightarrow> Inl TypeError)"

text \<open>
  A \<open>TP\<close> object at the moment of a sample: for each sensor attribute, what its \<open>read()\<close>
  does this time; \<open>None\<close> when the constructor never assigned the attribute (the sensor was
  not selected or its construction raised \<open>OSError\<close>).
\<close>

record TP =
  Temp_sensor :: "(exn + pyval) option"
  Pressure_sensor :: "(exn + pyval) option"

text \<open>
  The two \<open>try\<close> blocks of \<open>TP.sample\<close>, which catch \<open>OSError\<close> and nothing else, and
  \<open>sample\<close> itself, given the formatted time stamp; the text of the last log record is
  abbreviated.
\<close>

definition read_temperature :: "TP \<Rightarrow> effect list \<times> (exn + pyval)" where
  "read_temperature tp =
     (case Temp_sensor tp of
        None \<Rightarrow> ([], Inl AttributeError)
      | Some r \<Rightarrow>
          (case r of
             Inl e \<Rightarrow>
               if e = OSError then ([Log WARNING ''Error reading temperature sensor.''], Inr PyNaN)
               else ([], Inl e)
           | Inr v \<Rightarrow> ([], Inr v)))"

definition read_pressure ::
  "(rat \<Rightarrow> rat) \<Rightarrow> TP \<Rightarrow> effect list \<times> (exn + pyval \<times> pyval)" where
  "read_pressure scaled tp =
     (case Pressure_sensor tp of
        None \<Rightarrow> ([], Inl AttributeError)
      | Some r \<Rightarrow>
          (case r of
             Inl e \<Rightarrow>
               if e = OSError then
                 ([Log WARNING ''Error reading pressure sensor.''], Inr (PyNaN, PyNaN))
               else ([], Inl e)
           | Inr v \<Rightarrow>
               (case unpack2 v of
                  Inl e \<Rightarrow> ([], Inl e)
                | Inr (p, pt) \<Rightarrow>
                    (case scale_pressure scaled p of
                       Inl e \<Rightarrow> ([], Inl e)
                     | Inr p' \<Rightarrow> ([], Inr (p', pt))))))"

definition sample ::
  "(rat \<Rightarrow> rat) \<Rightarrow> TP \<Rightarrow> string \<Rightarrow>
     effect list \<times> (exn + string \<times> pyval \<times> pyval \<times> pyval)" where
  "sample scaled tp current_time =
     (case read_temperature tp of
        (es1, Inl e) \<Rightarrow> (es1, Inl e)
      | (es1, Inr t) \<Rightarrow>
          (case read_pressure scaled tp of
             (es2, Inl e) \<Rightarrow> (es1 @ es2, Inl e)
           | (es2, Inr (p, pt)) \<Rightarrow>
               if is_number t \<and> is_number p \<and> is_number pt then
                 (es1 @ es2 @ [Log DEBUG (''TP sampled at '' @ current_time), Log INFO ''Logged TP''],
                  Inr (current_time, t, p, pt))
               else (es1 @ es2 @ [Log DEBUG (''TP sampled at '' @ current_time)], Inl TypeError)))"

text \<open>
  A \<open>KellerLD\<close> as the pressure sensor of a \<open>TP\<close> (the constructor's default,
  \<open>use_iniP100=True\<close>), an initialised sensor, and three answers of the bus: a measurement
  with a clean status byte, one with the checksum bit set, and a bus that fails.
\<close>

definition keller_sensor :: "KellerLD \<Rightarrow> smbus \<Rightarrow> (exn + pyval) option" where
  "keller_sensor k io =
     Some (case fst (KellerLD_read k io) of Inl e \<Rightarrow> Inl e | Inr b \<Rightarrow> Inr (PyBool b))"

definition keller_ready :: KellerLD where
  "keller_ready =
     \<lparr>k_bus = True, k_pMin = Some 0, k_pMax = Some 100, k_pressure = None, k_temperature = None\<rparr>"

definition bus_measurement :: smbus where
  "bus_measurement = \<lparr>write_byte = None, read_i2c_block_data = Inr [64, 75, 0, 96, 0]\<rparr>"

definition bus_checksum_error :: smbus where
  "bus_checksum_error = \<lparr>write_byte = None, read_i2c_block_data = Inr [68, 75, 0, 96, 0]\<rparr>"

definition bus_failing :: smbus where
  "bus_failing = \<lparr>write_byte = Some OSError, read_i2c_block_data = Inl OSError\<rparr>"

section \<open>Properties of the light ring controller\<close>

subsection \<open>Reachable states and the timer invariant\<close>

lemma run_reachable: "reachable sm s \<Longrightarrow> run sm as s = Some s' \<Longrightarrow> reachable sm s'"
proof (induction as arbitrary: s)
  case Nil
  then show ?case by simp
next
  case (Cons a as)
  then show ?case
    by (auto split: option.splits intro: reachable_step)
qed

lemma timers_ok_init: "timers_ok ring_init"
  by (simp add: timers_ok_def ring_init_def LIGHT_RING_MIN_OFF_TIME_def)

lemma timers_ok_set: "timers_ok s \<Longrightarrow> timers_ok (snd (light_ring_set b s))"
  by (auto simp: timers_ok_def light_ring_set_def light_ring_open_thread_def Let_def
      LIGHT_RING_MIN_OFF_TIME_def LIGHT_RING_MAX_ON_TIME_def)

lemma timers_ok_flash_set: "timers_ok s \<Longrightarrow> timers_ok (snd (light_ring_flash_set c a b s))"
  by (auto simp: timers_ok_def light_ring_flash_set_def light_ring_open_thread_def Let_def)

lemma timers_ok_close: "timers_ok s \<Longrightarrow> timers_ok (snd (light_ring_close_thread s))"
  by (auto simp: timers_ok_def light_ring_close_thread_def)

lemma flash_logic_timers:
  "flash_logic sm s = (es, s', x) \<Longrightarrow>
     ring_state s' = ring_state s \<and> ring_on_time s' = ring_on_time s \<and>
     ring_off_time s' = ring_off_time s \<and> ring_alive s' = ring_alive s"
  by (auto simp: flash_logic_def flash_pulse_on_def resume_pulse_def Let_def
      split: if_splits option.splits)

lemma timers_ok_safety:
  assumes "0 \<le> ring_on_time s" "0 \<le> ring_off_time s" "0 < ring_off_time s \<longrightarrow> ring_on_time s = 0"
  shows "timers_ok (snd (safety_check s))"
  using assms
  by (auto simp: timers_ok_def safety_check_def light_ring_set_def light_ring_open_thread_def
      Let_def LIGHT_RING_MAX_ON_TIME_def split: prod.splits)

lemma timers_ok_body:
  assumes "timers_ok s" "light_ring_run_thread_body sm s = (es, s', x)"
  shows "timers_ok s'"
proof -
  obtain es1 s1 where sc: "safety_check (update_timers s) = (es1, s1)"
    by (cases "safety_check (update_timers s)")
  obtain es2 s2 x2 where fl: "flash_logic sm s1 = (es2, s2, x2)"
    by (cases "flash_logic sm s1")
  from assms(2) sc fl have "s' = s2"
    by (simp add: light_ring_run_thread_body_def)
  from assms(1) have "timers_ok (snd (safety_check (update_timers s)))"
    by (intro timers_ok_safety)
      (auto simp: timers_ok_def update_timers_def LIGHT_RING_REFRESH_DELAY_def)
  with sc have "timers_ok s1" by simp
  with flash_logic_timers [OF fl] \<open>s' = s2\<close> show ?thesis
    by (simp add: timers_ok_def)
qed

lemma reachable_timers_ok: "reachable sm s \<Longrightarrow> timers_ok s"
proof (induction rule: reachable.induct)
  case reachable_init
  show ?case by (rule timers_ok_init)
next
  case (reachable_step s a es s')
  then show ?case
  proof (cases a)
    case (Set_request b)
    with reachable_step timers_ok_set [of s b] show ?thesis by auto
  next
    case (Flash_request c t1 t2)
    with reachable_step timers_ok_flash_set [of s c t1 t2] show ?thesis by auto
  next
    case Close_request
    with reachable_step timers_ok_close [of s] show ?thesis by auto
  next
    case Timer_tick
    with reachable_step show ?thesis
      by (auto split: if_splits prod.splits dest: timers_ok_body)
  qed
qed

lemmas ring_defs = light_ring_set_def light_ring_flash_set_def light_ring_close_thread_def
  light_ring_open_thread_def update_timers_def safety_check_def flash_logic_def
  flash_pulse_on_def resume_pulse_def time_sleep_def sleep_max_64_def
  light_ring_run_thread_body_def LIGHT_RING_MAX_ON_TIME_def LIGHT_RING_MIN_OFF_TIME_def
  LIGHT_RING_REFRESH_DELAY_def ring_init_def str_bool_def

lemma on_ticks:
  assumes "ring_state s" "ring_alive s" "\<not> ring_flashing s"
    and "ring_on_time s + of_nat k / 2 < 60"
  shows "run sm (replicate k Timer_tick) s =
     Some (s\<lparr>ring_on_time := ring_on_time s + of_nat k / 2,
              ring_off_time := (if k = 0 then ring_off_time s else 0)\<rparr>)"
  using assms
proof (induction k arbitrary: s)
  case 0
  then show ?case by simp
next
  case (Suc k)
  let ?s1 = "s\<lparr>ring_on_time := ring_on_time s + 1 / 2, ring_off_time := 0\<rparr>"
  have k0: "(0::rat) \<le> of_nat k" by simp
  from Suc.prems(4) k0 have lt: "ring_on_time s + 1 / 2 < 60"
    by (simp add: field_simps)
  from Suc.prems lt have b: "light_ring_run_thread_body sm s = ([], ?s1, None)"
    by (simp add: ring_defs)
  from Suc.prems have "run sm (replicate k Timer_tick) ?s1 =
      Some (?s1\<lparr>ring_on_time := ring_on_time ?s1 + of_nat k / 2,
              ring_off_time := (if k = 0 then ring_off_time ?s1 else 0)\<rparr>)"
    by (intro Suc.IH) (simp_all add: field_simps)
  with Suc.prems b show ?case
    by (simp add: field_simps)
qed

lemma run_append:
  "run sm (as @ bs) s = (case run sm as s of None \<Rightarrow> None | Some s' \<Rightarrow> run sm bs s')"
  by (induction as arbitrary: s) (auto split: option.splits)

lemma trip_state_run:
  "run sleep_max_64 (Set_request True # replicate 119 Timer_tick @ [Flash_request 2 500 0]) ring_init =
     Some trip_state"
proof -
  define s1 where "s1 = ring_init\<lparr>ring_alive := True, led_ring := True, ring_state := True\<rparr>"
  define s2 where "s2 = s1\<lparr>ring_on_time := 119 / 2, ring_off_time := 0\<rparr>"
  have a: "light_ring_set True ring_init = ([GPIO_output True], s1)"
    by (simp add: ring_defs s1_def)
  have "run sleep_max_64 (replicate 119 Timer_tick) s1 =
      Some (s1\<lparr>ring_on_time := ring_on_time s1 + of_nat 119 / 2,
              ring_off_time := (if (119::nat) = 0 then ring_off_time s1 else 0)\<rparr>)"
    by (rule on_ticks) (simp_all add: s1_def ring_init_def)
  then have b: "run sleep_max_64 (replicate 119 Timer_tick) s1 = Some s2"
    by (simp add: s1_def s2_def ring_init_def)
  have c: "light_ring_flash_set 2 500 0 s2 = ([], trip_state)"
    by (simp add: ring_defs s1_def s2_def trip_state_def)
  show ?thesis
    by (simp add: run_append a b c)
qed

lemma trip_state_reachable: "reachable sleep_max_64 trip_state"
  using run_reachable [OF reachable_init trip_state_run] .

lemma safety_check_trip:
  assumes "ring_state s" "LIGHT_RING_MAX_ON_TIME \<le> ring_on_time s"
  shows "safety_check s =
     ([GPIO_output False, Log WARNING ''Max \"on\" time reached. Turning off light ring.''],
      (if \<not> ring_alive s then light_ring_open_thread s else s)
        \<lparr>led_ring := False, ring_state := False\<rparr>)"
  using assms by (simp add: safety_check_def light_ring_set_def Let_def)

lemma flash_logic_high:
  "(GPIO_output True \<in> set (fst (flash_logic sm s))) =
     (ring_flashing s \<and> flash_counter s < ring_flash_count s)"
  by (simp add: flash_logic_def flash_pulse_on_def resume_pulse_def split: option.splits)

lemma flash_logic_low:
  "flash_logic sm s = (es, s', None) \<Longrightarrow> led_ring s' = led_ring s \<or> \<not> led_ring s'"
  by (auto simp: flash_logic_def flash_pulse_on_def resume_pulse_def
      split: if_splits option.splits)

subsection \<open>The maximum on-time\<close>

text \<open>
  C1 (as the code has it). In every reachable sm state in which the ring is on and the
  iteration of the background thread brings the on-timer to \<open>LIGHT_RING_MAX_ON_TIME\<close>, the
  iteration clears \<open>ring_state\<close> and first of all writes the output low and logs the trip;
  before the iteration the on-timer was still below the limit. When the iteration completes
  the output is low. Whether a flash pulse is due does not change any of this, but such a
  pulse is still emitted in the same iteration, after the switch-off: the output is driven
  high once more exactly when a flash sequence with flashes left is active.
\<close>

theorem max_on_time_forces_off:
  assumes "reachable sm s" and "ring_state s"
    and "LIGHT_RING_MAX_ON_TIME \<le> ring_on_time (update_timers s)"
    and "light_ring_run_thread_body sm s = (es, s', x)"
  shows "\<not> ring_state s' \<and>
     take 2 es = [GPIO_output False,
                  Log WARNING ''Max \"on\" time reached. Turning off light ring.''] \<and>
     (x = None \<longrightarrow> \<not> led_ring s') \<and>
     (GPIO_output True \<in> set es) = (ring_flashing s \<and> flash_counter s < ring_flash_count s) \<and>
     ring_on_time s < LIGHT_RING_MAX_ON_TIME"
proof -
  let ?u = "update_timers s"
  let ?t = "(if \<not> ring_alive ?u then light_ring_open_thread ?u else ?u)
        \<lparr>led_ring := False, ring_state := False\<rparr>"
  from assms(2) have st: "ring_state ?u"
    by (simp add: update_timers_def)
  have sc: "safety_check ?u =
     ([GPIO_output False, Log WARNING ''Max \"on\" time reached. Turning off light ring.''], ?t)"
    using safety_check_trip [OF st assms(3)] .
  obtain es2 s2 x2 where fl: "flash_logic sm ?t = (es2, s2, x2)"
    by (cases "flash_logic sm ?t")
  from assms(4) sc fl have es: "es = [GPIO_output False,
      Log WARNING ''Max \"on\" time reached. Turning off light ring.''] @ es2"
    and s': "s' = s2" and x: "x = x2"
    by (simp_all add: light_ring_run_thread_body_def)
  from flash_logic_timers [OF fl] s' have a: "\<not> ring_state s'"
    by simp
  from es have b: "take 2 es = [GPIO_output False,
      Log WARNING ''Max \"on\" time reached. Turning off light ring.'']"
    by simp
  have c: "x = None \<longrightarrow> \<not> led_ring s'"
  proof
    assume "x = None"
    with fl x have "flash_logic sm ?t = (es2, s2, None)" by simp
    from flash_logic_low [OF this] s' show "\<not> led_ring s'" by simp
  qed
  have "(GPIO_output True \<in> set es2) = (ring_flashing ?t \<and> flash_counter ?t < ring_flash_count ?t)"
    using flash_logic_high [of sm ?t] fl by simp
  then have d: "(GPIO_output True \<in> set es) =
      (ring_flashing s \<and> flash_counter s < ring_flash_count s)"
    by (simp add: es update_timers_def light_ring_open_thread_def)
  from reachable_timers_ok [OF assms(1)] assms(2) have e: "ring_on_time s < LIGHT_RING_MAX_ON_TIME"
    by (simp add: timers_ok_def)
  from a b c d e show ?thesis by blast
qed

theorem max_on_time_forces_off_witness:
  "reachable sleep_max_64 trip_state \<and> ring_state trip_state \<and>
   LIGHT_RING_MAX_ON_TIME \<le> ring_on_time (update_timers trip_state) \<and>
   \<not> ring_state (fst (snd (light_ring_run_thread_body sleep_max_64 trip_state))) \<and>
   \<not> led_ring (fst (snd (light_ring_run_thread_body sleep_max_64 trip_state))) \<and>
   snd (snd (light_ring_run_thread_body sleep_max_64 trip_state)) = None"
proof -
  have r: "reachable sleep_max_64 trip_state" by (rule trip_state_reachable)
  have st: "ring_state trip_state" by (simp add: trip_state_def)
  have lim: "LIGHT_RING_MAX_ON_TIME \<le> ring_on_time (update_timers trip_state)"
    by (simp add: trip_state_def ring_defs)
  have x: "snd (snd (light_ring_run_thread_body sleep_max_64 trip_state)) = None"
    by (simp add: trip_state_def ring_defs)
  have b: "light_ring_run_thread_body sleep_max_64 trip_state =
      (fst (light_ring_run_thread_body sleep_max_64 trip_state),
       fst (snd (light_ring_run_thread_body sleep_max_64 trip_state)),
       snd (snd (light_ring_run_thread_body sleep_max_64 trip_state)))"
    by simp
  from max_on_time_forces_off [OF r st lim b] r st lim x show ?thesis
    by simp
qed

text \<open>
  The flash logic is not subject to the limit. From \<open>trip_state\<close> the iteration that
  detects the limit switches the ring off and then drives it high again for the 500 ms of
  the pending flash, and so does the iteration after it.
\<close>

theorem flash_pulses_after_max_on_time:
  "reachable sleep_max_64 trip_state \<and> ring_state trip_state \<and>
   LIGHT_RING_MAX_ON_TIME \<le> ring_on_time (update_timers trip_state) \<and>
   fst (light_ring_run_thread sleep_max_64 2 trip_state) =
     [GPIO_output False, Log WARNING ''Max \"on\" time reached. Turning off light ring.'',
      GPIO_output True, Sleep_ms 500, GPIO_output False, Sleep_ms 0,
      GPIO_output True, Sleep_ms 500, GPIO_output False, Sleep_ms 0]"
proof -
  have "reachable sleep_max_64 trip_state"
    by (rule trip_state_reachable)
  then show ?thesis
    by (simp add: ring_defs trip_state_def numeral_2_eq_2)
qed

subsection \<open>The minimum off-time\<close>

text \<open>
  C2 (as the code has it). The guard on the off-timer belongs to \<open>light_ring_set\<close>. In a
  step sm of the controller the ring goes from logically off to on only by
  \<open>light_ring_set(True)\<close> with an off-timer of at least \<open>LIGHT_RING_MIN_OFF_TIME\<close>, and a
  request writes the output high only under the same condition. A high write in an
  iteration of the thread is a flash pulse, emitted whenever a flash sequence has flashes
  left, without consulting the off-timer.
\<close>

theorem min_off_time_guard:
  assumes "step sm a s = Some (es, s')"
  shows "(\<not> ring_state s \<and> ring_state s' \<longrightarrow>
            a = Set_request True \<and> LIGHT_RING_MIN_OFF_TIME \<le> ring_off_time s) \<and>
         (a \<noteq> Timer_tick \<and> GPIO_output True \<in> set es \<longrightarrow>
            a = Set_request True \<and> \<not> ring_state s \<and> LIGHT_RING_MIN_OFF_TIME \<le> ring_off_time s) \<and>
         (a = Timer_tick \<and> GPIO_output True \<in> set es \<longrightarrow>
            ring_flashing s \<and> flash_counter s < ring_flash_count s)"
proof (cases a)
  case (Set_request b)
  with assms show ?thesis
    by (auto simp: light_ring_set_def Let_def split: if_splits)
next
  case (Flash_request c t1 t2)
  with assms show ?thesis
    by (auto simp: light_ring_flash_set_def light_ring_open_thread_def Let_def split: if_splits)
next
  case Close_request
  with assms show ?thesis
    by (auto simp: light_ring_close_thread_def)
next
  case Timer_tick
  with assms show ?thesis
    by (auto simp: light_ring_run_thread_body_def safety_check_def light_ring_set_def
        update_timers_def flash_logic_def flash_pulse_on_def resume_pulse_def
        light_ring_open_thread_def Let_def
        split: if_splits prod.splits option.splits)
qed

theorem min_off_time_guard_witness:
  "step sleep_max_64 (Set_request True) ring_init =
     Some ([GPIO_output True], ring_init\<lparr>ring_alive := True, led_ring := True, ring_state := True\<rparr>) \<and>
   LIGHT_RING_MIN_OFF_TIME \<le> ring_off_time ring_init"
proof -
  have s: "step sleep_max_64 (Set_request True) ring_init =
     Some ([GPIO_output True], ring_init\<lparr>ring_alive := True, led_ring := True, ring_state := True\<rparr>)"
    by (simp add: ring_defs)
  from min_off_time_guard [OF s] s show ?thesis
    by simp
qed

lemma flash_after_off_state_run:
  "run sleep_max_64 [Set_request True, Timer_tick, Set_request False, Flash_request 1 250 250] ring_init =
     Some flash_after_off_state"
  by (simp add: ring_defs flash_after_off_state_def)

text \<open>
  A flash pulse half a second after the ring was switched off: the off-timer reads 0.5 s
  when the thread drives the output high.
\<close>

theorem flash_pulse_ignores_min_off_time:
  "reachable sleep_max_64 flash_after_off_state \<and> \<not> led_ring flash_after_off_state \<and>
   ring_off_time (update_timers flash_after_off_state) < LIGHT_RING_MIN_OFF_TIME \<and>
   fst (light_ring_run_thread_body sleep_max_64 flash_after_off_state) =
     [GPIO_output True, Sleep_ms 250, GPIO_output False, Sleep_ms 250]"
proof -
  have "reachable sleep_max_64 flash_after_off_state"
    using run_reachable [OF reachable_init flash_after_off_state_run] .
  then show ?thesis
    by (simp add: ring_defs flash_after_off_state_def)
qed

subsection \<open>Flash requests\<close>

lemma flash_set_started:
  "ring_flashing (snd (light_ring_flash_set c t_on t_off s)) \<and>
   ring_alive (snd (light_ring_flash_set c t_on t_off s)) \<and>
   flash_counter (snd (light_ring_flash_set c t_on t_off s)) = 0 \<and>
   ring_flash_count (snd (light_ring_flash_set c t_on t_off s)) = c \<and>
   ring_flash_on_time (snd (light_ring_flash_set c t_on t_off s)) = t_on \<and>
   ring_flash_off_time (snd (light_ring_flash_set c t_on t_off s)) = t_off"
  by (simp add: light_ring_flash_set_def light_ring_open_thread_def Let_def)

lemma flash_set_independent:
  "snd (light_ring_flash_set c t_on t_off
          (s\<lparr>ring_flashing := f, ring_flash_count := c0, ring_flash_on_time := a0,
             ring_flash_off_time := b0, flash_counter := k0\<rparr>)) =
     snd (light_ring_flash_set c t_on t_off s)"
  by (simp add: light_ring_flash_set_def light_ring_open_thread_def Let_def)

lemma pulse_drive_simps [simp]:
  "pulse_drive (GPIO_output b) = b" "pulse_drive (Sleep_ms a) = True"
  "pulse_drive (Log l m) = False"
  by (simp_all add: pulse_drive_def)

lemma pulse_drive_trip [simp]: "filter pulse_drive trip_events = []"
  by (simp add: trip_events_def)

lemma safety_check_events:
  "fst (safety_check s) = [] \<or> fst (safety_check s) = trip_events"
  by (simp add: safety_check_def light_ring_set_def trip_events_def Let_def)

lemma safety_check_flash:
  "ring_flashing (snd (safety_check (update_timers s))) = ring_flashing s \<and>
   flash_counter (snd (safety_check (update_timers s))) = flash_counter s \<and>
   ring_flash_count (snd (safety_check (update_timers s))) = ring_flash_count s \<and>
   ring_flash_on_time (snd (safety_check (update_timers s))) = ring_flash_on_time s \<and>
   ring_flash_off_time (snd (safety_check (update_timers s))) = ring_flash_off_time s \<and>
   (ring_alive s \<longrightarrow> ring_alive (snd (safety_check (update_timers s))))"
  by (simp add: safety_check_def light_ring_set_def update_timers_def
      light_ring_open_thread_def Let_def)

lemma body_split:
  "light_ring_run_thread_body sm s =
     (fst (safety_check (update_timers s)) @
        fst (flash_logic sm (snd (safety_check (update_timers s)))),
      snd (flash_logic sm (snd (safety_check (update_timers s)))))"
  by (simp add: light_ring_run_thread_body_def split: prod.splits)

lemma body_flash_step:
  assumes "ring_flashing s" "flash_counter s < ring_flash_count s"
    and "time_sleep sm (ring_flash_on_time s) = None"
    and "time_sleep sm (ring_flash_off_time s) = None" and "ring_alive s"
  shows "\<exists>pre s'. light_ring_run_thread_body sm s =
       (pre @ [GPIO_output True, Sleep_ms (ring_flash_on_time s), GPIO_output False,
               Sleep_ms (ring_flash_off_time s)], s', None) \<and>
     (pre = [] \<or> pre = trip_events) \<and>
     ring_flashing s' \<and> flash_counter s' = flash_counter s + 1 \<and>
     ring_flash_count s' = ring_flash_count s \<and>
     ring_flash_on_time s' = ring_flash_on_time s \<and>
     ring_flash_off_time s' = ring_flash_off_time s \<and>
     ring_alive s' \<and> \<not> led_ring s'"
proof -
  let ?u = "snd (safety_check (update_timers s))"
  note f = safety_check_flash [of s]
  from assms f have "flash_logic sm ?u =
      ([GPIO_output True, Sleep_ms (ring_flash_on_time s), GPIO_output False,
        Sleep_ms (ring_flash_off_time s)],
       ?u\<lparr>led_ring := False, flash_counter := flash_counter s + 1\<rparr>, None)"
    by (simp add: flash_logic_def flash_pulse_on_def resume_pulse_def)
  with assms f safety_check_events [of "update_timers s"] show ?thesis
    by (simp add: body_split)
qed

lemma body_flash_end:
  assumes "ring_flashing s" "\<not> flash_counter s < ring_flash_count s" "ring_alive s"
  shows "\<exists>pre s'. light_ring_run_thread_body sm s = (pre, s', None) \<and>
     (pre = [] \<or> pre = trip_events) \<and>
     \<not> ring_flashing s' \<and> flash_counter s' = 0 \<and> ring_alive s'"
proof -
  let ?u = "snd (safety_check (update_timers s))"
  note f = safety_check_flash [of s]
  from assms f have "flash_logic sm ?u =
      ([], ?u\<lparr>ring_flashing := False, flash_counter := 0\<rparr>, None)"
    by (simp add: flash_logic_def)
  with assms f safety_check_events [of "update_timers s"] show ?thesis
    by (simp add: body_split)
qed

lemma body_idle:
  assumes "\<not> ring_flashing s" "ring_alive s"
  shows "\<exists>pre s'. light_ring_run_thread_body sm s = (pre, s', None) \<and>
     (pre = [] \<or> pre = trip_events) \<and>
     \<not> ring_flashing s' \<and> flash_counter s' = flash_counter s \<and> ring_alive s'"
proof -
  let ?u = "snd (safety_check (update_timers s))"
  note f = safety_check_flash [of s]
  from assms f have "flash_logic sm ?u = ([], ?u, None)"
    by (simp add: flash_logic_def)
  with assms f safety_check_events [of "update_timers s"] show ?thesis
    by (simp add: body_split)
qed

lemma run_thread_idle:
  assumes "\<not> ring_flashing s" "ring_alive s"
  shows "\<exists>es s'. light_ring_run_thread sm m s = (es, s', None) \<and>
     filter pulse_drive es = [] \<and> \<not> ring_flashing s' \<and> flash_counter s' = flash_counter s"
  using assms
proof (induction m arbitrary: s)
  case 0
  then show ?case by simp
next
  case (Suc m)
  from body_idle [OF Suc.prems(1,2), of sm] obtain pre s1 where
    b: "light_ring_run_thread_body sm s = (pre, s1, None)"
    and c: "pre = [] \<or> pre = trip_events"
    and f: "\<not> ring_flashing s1" "flash_counter s1 = flash_counter s" "ring_alive s1"
    by blast
  from Suc.IH [of s1] f obtain es2 s2 where
    r: "light_ring_run_thread sm m s1 = (es2, s2, None)"
    and c2: "filter pulse_drive es2 = []"
    and f2: "\<not> ring_flashing s2" "flash_counter s2 = flash_counter s1"
    by auto
  from c have "filter pulse_drive pre = []" by auto
  with Suc.prems b r c2 f f2 show ?case
    by simp
qed

lemma run_thread_flashing:
  assumes "ring_flashing s" "ring_alive s"
    and "flash_counter s + int k \<le> ring_flash_count s"
    and "time_sleep sm (ring_flash_on_time s) = None"
    and "time_sleep sm (ring_flash_off_time s) = None"
  shows "\<exists>es s'. light_ring_run_thread sm k s = (es, s', None) \<and>
     filter pulse_drive es =
       concat (replicate k [GPIO_output True, Sleep_ms (ring_flash_on_time s),
                            Sleep_ms (ring_flash_off_time s)]) \<and>
     ring_flashing s' \<and> ring_alive s' \<and> flash_counter s' = flash_counter s + int k \<and>
     ring_flash_count s' = ring_flash_count s \<and>
     ring_flash_on_time s' = ring_flash_on_time s \<and>
     ring_flash_off_time s' = ring_flash_off_time s"
  using assms
proof (induction k arbitrary: s)
  case 0
  then show ?case by simp
next
  case (Suc k)
  from Suc.prems have lt: "flash_counter s < ring_flash_count s" by simp
  from body_flash_step [OF Suc.prems(1) lt Suc.prems(4,5,2)] obtain pre s1 where
    b: "light_ring_run_thread_body sm s =
       (pre @ [GPIO_output True, Sleep_ms (ring_flash_on_time s), GPIO_output False,
               Sleep_ms (ring_flash_off_time s)], s1, None)"
    and c: "pre = [] \<or> pre = trip_events"
    and f: "ring_flashing s1" "flash_counter s1 = flash_counter s + 1"
      "ring_flash_count s1 = ring_flash_count s" "ring_flash_on_time s1 = ring_flash_on_time s"
      "ring_flash_off_time s1 = ring_flash_off_time s" "ring_alive s1"
    by blast
  from Suc.prems f have "\<exists>es s'. light_ring_run_thread sm k s1 = (es, s', None) \<and>
     filter pulse_drive es =
       concat (replicate k [GPIO_output True, Sleep_ms (ring_flash_on_time s1),
                            Sleep_ms (ring_flash_off_time s1)]) \<and>
     ring_flashing s' \<and> ring_alive s' \<and> flash_counter s' = flash_counter s1 + int k \<and>
     ring_flash_count s' = ring_flash_count s1 \<and>
     ring_flash_on_time s' = ring_flash_on_time s1 \<and>
     ring_flash_off_time s' = ring_flash_off_time s1"
    by (intro Suc.IH) simp_all
  then obtain es2 s2 where
    r: "light_ring_run_thread sm k s1 = (es2, s2, None)"
    and c2: "filter pulse_drive es2 =
       concat (replicate k [GPIO_output True, Sleep_ms (ring_flash_on_time s1),
                            Sleep_ms (ring_flash_off_time s1)])"
    and f2: "ring_flashing s2" "ring_alive s2" "flash_counter s2 = flash_counter s1 + int k"
      "ring_flash_count s2 = ring_flash_count s1" "ring_flash_on_time s2 = ring_flash_on_time s1"
      "ring_flash_off_time s2 = ring_flash_off_time s1"
    by blast
  from c have "filter pulse_drive pre = []" by auto
  with Suc.prems b r c2 f f2 show ?case
    by simp
qed

lemma run_thread_add:
  assumes "light_ring_run_thread sm k s = (es, s', None)" "ring_alive s'"
  shows "light_ring_run_thread sm (k + m) s =
     (case light_ring_run_thread sm m s' of (es', r) \<Rightarrow> (es @ es', r))"
  using assms
proof (induction k arbitrary: s es)
  case 0
  then show ?case by (simp split: prod.splits)
next
  case (Suc k)
  show ?case
  proof (cases "ring_alive s")
    case False
    with Suc.prems show ?thesis by (cases m) (auto split: prod.splits)
  next
    case True
    obtain e1 s1 x1 where b: "light_ring_run_thread_body sm s = (e1, s1, x1)"
      by (cases "light_ring_run_thread_body sm s")
    with True Suc.prems(1) have x1: "x1 = None"
      by (cases x1) (auto split: prod.splits)
    obtain e2 r2 where r: "light_ring_run_thread sm k s1 = (e2, r2)"
      by (cases "light_ring_run_thread sm k s1")
    with True b x1 Suc.prems(1) have es: "es = e1 @ e2" and r2: "r2 = (s', None)"
      by simp_all
    from Suc.IH [of s1 e2] r r2 Suc.prems(2)
    have "light_ring_run_thread sm (k + m) s1 =
        (case light_ring_run_thread sm m s' of (es', r) \<Rightarrow> (e2 @ es', r))"
      by simp
    with True b x1 es show ?thesis
      by (simp split: prod.splits)
  qed
qed

lemma run_thread_finishes:
  assumes "ring_flashing s" "ring_alive s"
    and "flash_counter s + int k = ring_flash_count s"
    and "time_sleep sm (ring_flash_on_time s) = None"
    and "time_sleep sm (ring_flash_off_time s) = None"
  shows "\<exists>es s'. light_ring_run_thread sm (Suc k + m) s = (es, s', None) \<and>
     filter pulse_drive es =
       concat (replicate k [GPIO_output True, Sleep_ms (ring_flash_on_time s),
                            Sleep_ms (ring_flash_off_time s)]) \<and>
     \<not> ring_flashing s' \<and> flash_counter s' = 0"
proof -
  from run_thread_flashing [of s k sm] assms obtain es1 s1 where
    r1: "light_ring_run_thread sm k s = (es1, s1, None)"
    and c1: "filter pulse_drive es1 =
       concat (replicate k [GPIO_output True, Sleep_ms (ring_flash_on_time s),
                            Sleep_ms (ring_flash_off_time s)])"
    and f1: "ring_flashing s1" "ring_alive s1" "flash_counter s1 = flash_counter s + int k"
      "ring_flash_count s1 = ring_flash_count s"
    by auto
  from f1 assms(3) have ge: "\<not> flash_counter s1 < ring_flash_count s1" by simp
  from body_flash_end [OF f1(1) ge f1(2), of sm] obtain pre s2 where
    b: "light_ring_run_thread_body sm s1 = (pre, s2, None)"
    and c: "pre = [] \<or> pre = trip_events"
    and f2: "\<not> ring_flashing s2" "flash_counter s2 = 0" "ring_alive s2"
    by blast
  from run_thread_idle [OF f2(1,3), of sm m] f2 obtain es3 s3 where
    r3: "light_ring_run_thread sm m s2 = (es3, s3, None)"
    and c3: "filter pulse_drive es3 = []"
    and f3: "\<not> ring_flashing s3" "flash_counter s3 = 0"
    by auto
  from c have c': "filter pulse_drive pre = []" by auto
  from f1(2) b r3 have "light_ring_run_thread sm (Suc m) s1 = (pre @ es3, s3, None)"
    by simp
  with run_thread_add [OF r1 f1(2), of "Suc m"]
  have "light_ring_run_thread sm (k + Suc m) s = (es1 @ pre @ es3, s3, None)"
    by simp
  with c1 c' c3 f3 show ?thesis
    by simp
qed

text \<open>
  C3 (what the code does). Immediately after \<open>light_ring_flash_set(n, time_on, time_off)\<close>
  the flash parameters are the arguments, \<open>flash_counter\<close> is 0 and \<open>ring_flashing\<close> is set.
  But when the request arrives while the thread sleeps inside a pulse of the sequence in
  progress, the rest of that pulse is still executed, on the new variables: the output is
  written low, the thread sleeps the new off time and \<open>flash_counter += 1\<close> turns the
  counter that was just reset into 1. The new sequence then drives \<open>n - 1\<close> pulses
  instead of \<open>n\<close> before it ends.
\<close>

theorem flash_request_during_pulse:
  assumes "time_sleep sm t_on = None" and "time_sleep sm t_off = None" and "0 < n"
    and "flash_pulse_on sm s = (es1, s1, None)"
    and "light_ring_flash_set (int n) t_on t_off s1 = (es2, s2)"
  shows "ring_flash_count s2 = int n \<and> ring_flash_on_time s2 = t_on \<and>
     ring_flash_off_time s2 = t_off \<and> flash_counter s2 = 0 \<and> ring_flashing s2 \<and>
     (\<exists>s3. resume_pulse sm s2 = ([GPIO_output False, Sleep_ms t_off], s3, None) \<and>
        flash_counter s3 = 1 \<and>
        (\<forall>m. \<exists>es s'.
           light_ring_run_thread sm (n + m) s3 = (es, s', None) \<and>
           filter pulse_drive es =
             concat (replicate (n - 1) [GPIO_output True, Sleep_ms t_on, Sleep_ms t_off]) \<and>
           \<not> ring_flashing s' \<and> flash_counter s' = 0))"
proof -
  from assms(5) have s2: "s2 = snd (light_ring_flash_set (int n) t_on t_off s1)"
    by simp
  note st = flash_set_started [of "int n" t_on t_off s1, folded s2]
  let ?s3 = "s2\<lparr>led_ring := False, flash_counter := flash_counter s2 + 1\<rparr>"
  from st assms(2) have r: "resume_pulse sm s2 = ([GPIO_output False, Sleep_ms t_off], ?s3, None)"
    by (simp add: resume_pulse_def)
  have "\<exists>es s'. light_ring_run_thread sm (Suc (n - 1) + m) ?s3 = (es, s', None) \<and>
      filter pulse_drive es =
        concat (replicate (n - 1) [GPIO_output True, Sleep_ms (ring_flash_on_time ?s3),
                                   Sleep_ms (ring_flash_off_time ?s3)]) \<and>
      \<not> ring_flashing s' \<and> flash_counter s' = 0" for m
    using st assms(1,2,3) by (intro run_thread_finishes) (simp_all add: of_nat_diff)
  with st assms(3) have "\<exists>es s'. light_ring_run_thread sm (n + m) ?s3 = (es, s', None) \<and>
      filter pulse_drive es =
        concat (replicate (n - 1) [GPIO_output True, Sleep_ms t_on, Sleep_ms t_off]) \<and>
      \<not> ring_flashing s' \<and> flash_counter s' = 0" for m
    by simp
  with r st show ?thesis
    by auto
qed

theorem flash_request_during_pulse_witness:
  "time_sleep sleep_max_64 100 = None \<and> (0::nat) < 1 \<and>
   safety_check (update_timers (snd (light_ring_flash_set 3 250 250 ring_init))) =
     ([], pulse_due_state) \<and>
   flash_pulse_on sleep_max_64 pulse_due_state =
     ([GPIO_output True, Sleep_ms 250], mid_pulse_state, None) \<and>
   light_ring_flash_set 1 100 100 mid_pulse_state =
     ([Log INFO ''New flash command received. Restarting flash sequence.''],
      mid_pulse_state\<lparr>ring_flash_count := 1, ring_flash_on_time := 100,
                      ring_flash_off_time := 100\<rparr>) \<and>
   resume_pulse sleep_max_64
       (mid_pulse_state\<lparr>ring_flash_count := 1, ring_flash_on_time := 100,
                        ring_flash_off_time := 100\<rparr>) =
     ([GPIO_output False, Sleep_ms 100],
      mid_pulse_state\<lparr>ring_flash_count := 1, ring_flash_on_time := 100,
                      ring_flash_off_time := 100, led_ring := False, flash_counter := 1\<rparr>,
      None) \<and>
   light_ring_run_thread sleep_max_64 3
       (mid_pulse_state\<lparr>ring_flash_count := 1, ring_flash_on_time := 100,
                        ring_flash_off_time := 100, led_ring := False, flash_counter := 1\<rparr>) =
     ([],
      mid_pulse_state\<lparr>ring_off_time := 7, ring_flashing := False, ring_flash_count := 1,
                      ring_flash_on_time := 100, ring_flash_off_time := 100,
                      led_ring := False, flash_counter := 0\<rparr>,
      None)"
proof -
  have h: "time_sleep sleep_max_64 100 = None"
    by (simp add: time_sleep_def sleep_max_64_def)
  have n: "(0::nat) < 1" by simp
  have a: "safety_check (update_timers (snd (light_ring_flash_set 3 250 250 ring_init))) =
     ([], pulse_due_state)"
    by (simp add: ring_defs pulse_due_state_def)
  have b: "flash_pulse_on sleep_max_64 pulse_due_state =
     ([GPIO_output True, Sleep_ms 250], mid_pulse_state, None)"
    by (simp add: ring_defs pulse_due_state_def mid_pulse_state_def)
  have c: "light_ring_flash_set (int 1) 100 100 mid_pulse_state =
     ([Log INFO ''New flash command received. Restarting flash sequence.''],
      mid_pulse_state\<lparr>ring_flash_count := 1, ring_flash_on_time := 100,
                      ring_flash_off_time := 100\<rparr>)"
    by (simp add: ring_defs pulse_due_state_def mid_pulse_state_def)
  have d: "light_ring_run_thread sleep_max_64 3
       (mid_pulse_state\<lparr>ring_flash_count := 1, ring_flash_on_time := 100,
                        ring_flash_off_time := 100, led_ring := False, flash_counter := 1\<rparr>) =
     ([],
      mid_pulse_state\<lparr>ring_off_time := 7, ring_flashing := False, ring_flash_count := 1,
                      ring_flash_on_time := 100, ring_flash_off_time := 100,
                      led_ring := False, flash_counter := 0\<rparr>,
      None)"
    by (simp add: ring_defs pulse_due_state_def mid_pulse_state_def numeral_3_eq_3)
  have e: "mid_pulse_state\<lparr>ring_flash_count := 1, ring_flash_on_time := 100,
        ring_flash_off_time := 100, led_ring := False, flash_counter := 1\<rparr> =
      s3" if "resume_pulse sleep_max_64
       (mid_pulse_state\<lparr>ring_flash_count := 1, ring_flash_on_time := 100,
                        ring_flash_off_time := 100\<rparr>) =
     ([GPIO_output False, Sleep_ms 100], s3, None)" for s3
    using that by (simp add: ring_defs pulse_due_state_def mid_pulse_state_def)
  from flash_request_during_pulse [OF h h n b c] e h n a b c d show ?thesis
    by auto
qed




subsection \<open>Closing the thread\<close>

text \<open>
  C9. \<open>light_ring_close_thread\<close> writes the output low and clears \<open>ring_alive\<close> but leaves
  \<open>ring_state\<close> as it is. If the ring was logically on, a following
  \<open>light_ring_set(True)\<close> finds no change of state and returns without a write: the logical
  state is on while the output is low.
\<close>

theorem close_thread_desync:
  "fst (light_ring_close_thread s) = [GPIO_output False] \<and>
   \<not> led_ring (snd (light_ring_close_thread s)) \<and>
   \<not> ring_alive (snd (light_ring_close_thread s)) \<and>
   ring_state (snd (light_ring_close_thread s)) = ring_state s \<and>
   (ring_state s \<longrightarrow>
      light_ring_set True (snd (light_ring_close_thread s)) =
        ([Log DEBUG ''No change in state: True''], snd (light_ring_close_thread s)) \<and>
      ring_state (snd (light_ring_set True (snd (light_ring_close_thread s)))) \<and>
      \<not> led_ring (snd (light_ring_set True (snd (light_ring_close_thread s)))))"
  by (simp add: light_ring_close_thread_def light_ring_set_def str_bool_def)

theorem close_thread_desync_witness:
  "ring_state ring_on_state \<and> led_ring ring_on_state \<and>
   ring_state (snd (light_ring_set True (snd (light_ring_close_thread ring_on_state)))) \<and>
   \<not> led_ring (snd (light_ring_set True (snd (light_ring_close_thread ring_on_state))))"
  using close_thread_desync [of ring_on_state]
  by (simp add: ring_on_state_def)

section \<open>Properties of the recovery transmissions\<close>

subsection \<open>Sequencing\<close>

lemma seq_None [simp]: "seq (t, None) q = (t @ fst q, snd q)"
  by (simp add: seq_def)

lemma seq_Some [simp]: "seq (t, Some e) q = (t, Some e)"
  by (simp add: seq_def)

lemma block_Nil [simp]: "block [] = ([], None)"
  by (simp add: block_def)

lemma block_Cons [simp]: "block (p # ps) = seq p (block ps)"
  by (simp add: block_def)

lemma seq_returns:
  "snd (seq p q) = None \<Longrightarrow> snd p = None \<and> snd q = None \<and> fst (seq p q) = fst p @ fst q"
  by (cases p; cases "snd p") (auto simp: seq_def)

lemma seq_assoc: "seq (seq p q) r = seq p (seq q r)"
  by (cases p; cases "snd p"; cases q; cases "snd q") (auto simp: seq_def)

lemma block_append: "block (ps @ qs) = seq (block ps) (block qs)"
proof (induction ps)
  case Nil
  show ?case by (cases "block qs") simp
next
  case (Cons p ps)
  then show ?case by (simp add: seq_assoc)
qed

lemma calls_of_append [simp]: "calls_of (t @ u) = calls_of t @ calls_of u"
  by (simp add: calls_of_def)

lemma calls_of_Nil [simp]: "calls_of [] = []"
  by (simp add: calls_of_def)

lemma calls_of_Cons [simp]:
  "calls_of (ev # t) = (case ev of Call c \<Rightarrow> [c] | _ \<Rightarrow> []) @ calls_of t"
  by (simp add: calls_of_def)

lemmas recovery_defs = report_def invoke_def position_ok_def STROBE_ON_def STROBE_OFF_def
  returning_def

lemma seq_unit [simp]: "seq p ([], None) = p"
  by (cases p; cases "snd p") (auto simp: seq_def)

lemma snd_seq: "snd (seq p q) = (case snd p of Some e \<Rightarrow> Some e | None \<Rightarrow> snd q)"
  by (cases p; cases "snd p") (auto simp: seq_def)

lemma calls_seq_le:
  "length (calls_of (fst (seq p q))) \<le> length (calls_of (fst p)) + length (calls_of (fst q))"
  by (cases p; cases "snd p") (auto simp: seq_def)

subsection \<open>The file transmission loop\<close>

lemma failures_before_success_step:
  "a < max_tries \<Longrightarrow>
     failures_before_success f a = (if f a then 0 else Suc (failures_before_success f (Suc a)))"
  by (simp add: failures_before_success_def upt_conv_Cons)

lemma failures_before_success_end:
  "\<not> a < max_tries \<Longrightarrow> failures_before_success f a = 0"
  by (simp add: failures_before_success_def)

lemma failures_before_success_le:
  "failures_before_success f a \<le> max_tries - a"
proof -
  have "length (takeWhile (\<lambda>k. \<not> f k) [a..<max_tries]) \<le> length [a..<max_tries]"
    by (rule length_takeWhile_le)
  then show ?thesis by (simp add: failures_before_success_def)
qed

lemma transmit_file_loop_returning:
  "a \<le> max_tries \<Longrightarrow>
   calls_of (fst (transmit_file_loop (returning p f) filename pos a)) =
     replicate (min (max_tries - a) (Suc (failures_before_success f a)))
       (Sbd_send_file filename False 0 pos) \<and>
   (Logged INFO [S ''[OK] File transmitted successfully.'']
      \<in> set (fst (transmit_file_loop (returning p f) filename pos a))) =
     (failures_before_success f a < max_tries - a) \<and>
   (Logged ERROR [S ''[FAILURE] File transmission failed after '', N max_tries, S '' attempts.'']
      \<in> set (fst (transmit_file_loop (returning p f) filename pos a))) =
     (failures_before_success f a = max_tries - a) \<and>
   snd (transmit_file_loop (returning p f) filename pos a) = None"
proof (induction "returning p f" filename pos a rule: transmit_file_loop.induct)
  case (1 filename pos a)
  show ?case
  proof (cases "a < max_tries")
    case False
    with "1.prems" have "a = max_tries" by simp
    then show ?thesis
      by (simp add: transmit_file_loop.simps [of _ _ _ max_tries] report_def
          failures_before_success_end)
  next
    case True
    note lt = this
    show ?thesis
    proof (cases "f a")
      case True
      with lt show ?thesis
        by (simp add: transmit_file_loop.simps [of _ _ _ a] report_def invoke_def
            returning_def failures_before_success_step [OF lt])
    next
      case False
      have r: "sbd_send_file (returning p f) a = Inr False"
        using False by (simp add: returning_def)
      from lt have le: "a + 1 \<le> max_tries" by simp
      note ih = "1.hyps" [OF lt r _ le, simplified]
      obtain t where t: "transmit_file_loop (returning p f) filename pos (Suc a) = (t, None)"
        using ih by (cases "transmit_file_loop (returning p f) filename pos (Suc a)") simp
      have fb: "failures_before_success f a = Suc (failures_before_success f (Suc a))"
        using failures_before_success_step [OF lt, of f] False by simp
      from lt have d: "max_tries - a = Suc (max_tries - Suc a)" by simp
      from lt ih show ?thesis
        by (simp add: transmit_file_loop.simps [of _ _ _ a] report_def invoke_def r t fb d)
    qed
  qed
qed

lemma transmit_file_loop_calls_le:
  "length (calls_of (fst (transmit_file_loop w filename pos a))) \<le> max_tries - a"
proof (induction w filename pos a rule: transmit_file_loop.induct)
  case (1 w filename pos a)
  show ?case
  proof (cases "a < max_tries")
    case False
    then show ?thesis
      by (simp add: transmit_file_loop.simps [of _ _ _ a] report_def)
  next
    case True
    note lt = this
    show ?thesis
    proof (cases "sbd_send_file w a")
      case (Inl e)
      with lt show ?thesis
        by (simp add: transmit_file_loop.simps [of _ _ _ a] report_def invoke_def)
    next
      case (Inr ret_data)
      show ?thesis
      proof (cases ret_data)
        case True
        with lt Inr show ?thesis
          by (simp add: transmit_file_loop.simps [of _ _ _ a] report_def invoke_def)
      next
        case False
        from "1.IH" [OF lt Inr] False
        have ih: "length (calls_of (fst (transmit_file_loop w filename pos (Suc a))))
            \<le> max_tries - Suc a"
          by simp
        obtain t x where t: "transmit_file_loop w filename pos (Suc a) = (t, x)"
          by (cases "transmit_file_loop w filename pos (Suc a)")
        from lt Inr False ih t show ?thesis
          by (simp add: transmit_file_loop.simps [of _ _ _ a] report_def invoke_def)
      qed
    qed
  qed
qed

lemma transmit_file_loop_raised:
  "snd (transmit_file_loop w filename pos a) = Some e \<Longrightarrow>
     \<exists>k. a \<le> k \<and> k < max_tries \<and> sbd_send_file w k = Inl e"
proof (induction w filename pos a rule: transmit_file_loop.induct)
  case (1 w filename pos a)
  show ?case
  proof (cases "a < max_tries")
    case False
    with "1.prems" show ?thesis
      by (simp add: transmit_file_loop.simps [of _ _ _ a] report_def)
  next
    case True
    note lt = this
    show ?thesis
    proof (cases "sbd_send_file w a")
      case (Inl e')
      with lt "1.prems" have "e' = e"
        by (simp add: transmit_file_loop.simps [of _ _ _ a] report_def invoke_def)
      with Inl lt show ?thesis by auto
    next
      case (Inr ret_data)
      show ?thesis
      proof (cases ret_data)
        case True
        with lt Inr "1.prems" show ?thesis
          by (simp add: transmit_file_loop.simps [of _ _ _ a] report_def invoke_def)
      next
        case False
        obtain t x where t: "transmit_file_loop w filename pos (Suc a) = (t, x)"
          by (cases "transmit_file_loop w filename pos (Suc a)")
        from lt Inr False "1.prems" t have "x = Some e"
          by (simp add: transmit_file_loop.simps [of _ _ _ a] report_def invoke_def)
        with "1.IH" [OF lt Inr] False t
        obtain k where "Suc a \<le> k" "k < max_tries" "sbd_send_file w k = Inl e"
          by auto
        then show ?thesis
          by (auto intro: exI [of _ k])
      qed
    qed
  qed
qed

lemma transmit_file_loop_propagates:
  "sbd_send_file w k = Inl e \<Longrightarrow> k < max_tries \<Longrightarrow> a \<le> k \<Longrightarrow>
   (\<And>j. a \<le> j \<Longrightarrow> j < k \<Longrightarrow> sbd_send_file w j = Inr False) \<Longrightarrow>
   snd (transmit_file_loop w filename pos a) = Some e"
proof (induction "k - a" arbitrary: a)
  case 0
  then have "a = k" by simp
  with "0.prems" show ?case
    by (simp add: transmit_file_loop.simps [of _ _ _ k] report_def invoke_def)
next
  case (Suc n)
  then have lt: "a < k" by simp
  with Suc.prems have r: "sbd_send_file w a = Inr False" by simp
  have "snd (transmit_file_loop w filename pos (Suc a)) = Some e"
  proof (rule Suc.hyps(1))
    show "n = k - Suc a" using Suc.hyps(2) by simp
    show "sbd_send_file w k = Inl e" by (rule Suc.prems(1))
    show "k < max_tries" by (rule Suc.prems(2))
    show "Suc a \<le> k" using lt by simp
    show "sbd_send_file w j = Inr False" if "Suc a \<le> j" "j < k" for j
      using that Suc.prems(4) [of j] by simp
  qed
  moreover obtain t x where t: "transmit_file_loop w filename pos (Suc a) = (t, x)"
    by (cases "transmit_file_loop w filename pos (Suc a)")
  moreover from lt Suc.prems have "a < max_tries" by simp
  ultimately show ?case
    by (simp add: transmit_file_loop.simps [of _ _ _ a] report_def invoke_def r)
qed

text \<open>
  C5. Whatever truth values the calls of \<open>sbd_send_file\<close> return, \<open>transmit_file\<close> calls it
  once per attempt with the same arguments, stops after the first truthy result and
  otherwise after \<open>max_tries = 5\<close> attempts: the number of calls is the number of falsy
  results before the first truthy one plus one, at most 5. Success is logged exactly when
  one of the first five results is truthy, the final failure exactly when none is, and the
  method returns normally. For collaborators of any behaviour there are at most 5 calls.
\<close>

theorem transmit_file_attempts:
  "calls_of (fst (transmit_file (returning p f) filename pos)) =
     replicate (min max_tries (Suc (failures_before_success f 0)))
       (Sbd_send_file filename False 0 pos) \<and>
   (Logged INFO [S ''[OK] File transmitted successfully.'']
      \<in> set (fst (transmit_file (returning p f) filename pos))) =
     (failures_before_success f 0 < max_tries) \<and>
   (Logged ERROR [S ''[FAILURE] File transmission failed after '', N 5, S '' attempts.'']
      \<in> set (fst (transmit_file (returning p f) filename pos))) =
     (failures_before_success f 0 = max_tries) \<and>
   snd (transmit_file (returning p f) filename pos) = None \<and>
   length (calls_of (fst (transmit_file w filename pos))) \<le> 5"
  using transmit_file_loop_returning [of 0 p f filename pos]
    transmit_file_loop_calls_le [of w filename pos 0]
  by (simp add: transmit_file_def max_tries_def)

subsection \<open>The position transmission\<close>

text \<open>
  C6. With collaborators that return, \<open>acquire_and_send_gps_position\<close> calls
  \<open>sbd_send_position\<close> with \<open>maintain_gps_pwr=True\<close>, and once more, with
  \<open>maintain_gps_pwr=False\<close>, exactly when the first result is not a success with a valid
  position; the final failure is logged exactly when both attempts fail. Whatever the
  collaborators do, \<open>sbd_send_position\<close> is called at most twice.
\<close>

theorem position_retry_once:
  "calls_of (fst (acquire_and_send_gps_position (returning p f))) =
     [Burn_wire ENABLE, Strobe_timing 100 4900, Strobe ENABLE, Sbd_send_position False True 120] @
     (if position_ok (p 0) then [] else [Sbd_send_position False False 120]) @
     [Gps_pwr dev_off, Modem_pwr dev_off] \<and>
   (Logged ERROR [S ''[FAILURE] GPS transmission failed after retry.'']
      \<in> set (fst (acquire_and_send_gps_position (returning p f)))) =
     (\<not> position_ok (p 0) \<and> \<not> position_ok (p 1)) \<and>
   snd (acquire_and_send_gps_position (returning p f)) = None \<and>
   length (filter is_send_position (calls_of (fst (acquire_and_send_gps_position w)))) \<le> 2"
proof -
  have a: "calls_of (fst (acquire_and_send_gps_position (returning p f))) =
     [Burn_wire ENABLE, Strobe_timing 100 4900, Strobe ENABLE, Sbd_send_position False True 120] @
     (if position_ok (p 0) then [] else [Sbd_send_position False False 120]) @
     [Gps_pwr dev_off, Modem_pwr dev_off]"
    by (simp add: acquire_and_send_gps_position_def report_def invoke_def returning_def
        STROBE_ON_def STROBE_OFF_def)
  have b: "(Logged ERROR [S ''[FAILURE] GPS transmission failed after retry.'']
      \<in> set (fst (acquire_and_send_gps_position (returning p f)))) =
     (\<not> position_ok (p 0) \<and> \<not> position_ok (p 1))"
    by (simp add: acquire_and_send_gps_position_def report_def invoke_def returning_def)
  have c: "snd (acquire_and_send_gps_position (returning p f)) = None"
    by (simp add: acquire_and_send_gps_position_def report_def invoke_def returning_def)
  have d: "length (filter is_send_position (calls_of (fst (acquire_and_send_gps_position w)))) \<le> 2"
    by (cases "burn_wire w"; cases "strobe_timing w"; cases "strobe w"; cases "gps_pwr w";
        cases "modem_pwr w"; cases "sbd_send_position w 0"; cases "sbd_send_position w 1")
      (simp_all add: acquire_and_send_gps_position_def report_def invoke_def
        is_send_position_def)
  from a b c d show ?thesis by blast
qed

text \<open>
  C10. Whenever \<open>acquire_and_send_gps_position\<close> returns normally, the last two calls it
  made are \<open>gps_pwr(dev_off)\<close> and \<open>modem_pwr(dev_off)\<close>, and both returned.
\<close>

theorem power_off_before_return:
  assumes "snd (acquire_and_send_gps_position w) = None"
  shows "take 2 (rev (fst (acquire_and_send_gps_position w))) =
           [Call (Modem_pwr dev_off), Call (Gps_pwr dev_off)] \<and>
         gps_pwr w = None \<and> modem_pwr w = None"
proof -
  obtain ps where a: "acquire_and_send_gps_position w =
      block (ps @ [invoke (Gps_pwr dev_off) (gps_pwr w), invoke (Modem_pwr dev_off) (modem_pwr w)])"
    unfolding acquire_and_send_gps_position_def
    by (metis append_Cons append_Nil)
  let ?q = "block [invoke (Gps_pwr dev_off) (gps_pwr w), invoke (Modem_pwr dev_off) (modem_pwr w)]"
  from a have b: "acquire_and_send_gps_position w = seq (block ps) ?q"
    by (simp only: block_append)
  from seq_returns [of "block ps" ?q] assms b
  have q: "snd ?q = None" and t: "fst (acquire_and_send_gps_position w) = fst (block ps) @ fst ?q"
    by simp_all
  from q have g: "gps_pwr w = None"
    by (cases "gps_pwr w") (simp_all add: invoke_def)
  with q have m: "modem_pwr w = None"
    by (cases "modem_pwr w") (simp_all add: invoke_def)
  from g m have "fst ?q = [Call (Gps_pwr dev_off), Call (Modem_pwr dev_off)]"
    by (simp add: invoke_def)
  with t g m show ?thesis by simp
qed

theorem power_off_before_return_witness:
  "snd (acquire_and_send_gps_position (returning (\<lambda>k. (False, False)) (\<lambda>k. False))) = None \<and>
   take 2 (rev (fst (acquire_and_send_gps_position (returning (\<lambda>k. (False, False)) (\<lambda>k. False))))) =
     [Call (Modem_pwr dev_off), Call (Gps_pwr dev_off)]"
proof -
  have h: "snd (acquire_and_send_gps_position (returning (\<lambda>k. (False, False)) (\<lambda>k. False))) = None"
    by (simp add: acquire_and_send_gps_position_def recovery_defs)
  from power_off_before_return [OF h] h show ?thesis
    by simp
qed

subsection \<open>Exceptions of the collaborators\<close>

lemma transmit_file_loop_succeeds:
  "sbd_send_file w k = Inr True \<Longrightarrow> k < max_tries \<Longrightarrow> a \<le> k \<Longrightarrow>
   (\<And>j. a \<le> j \<Longrightarrow> j < k \<Longrightarrow> sbd_send_file w j = Inr False) \<Longrightarrow>
   snd (transmit_file_loop w filename pos a) = None"
proof (induction "k - a" arbitrary: a)
  case 0
  then have "a = k" by simp
  with "0.prems" show ?case
    by (simp add: transmit_file_loop.simps [of _ _ _ k] report_def invoke_def)
next
  case (Suc n)
  then have lt: "a < k" by simp
  with Suc.prems have r: "sbd_send_file w a = Inr False" by simp
  have "snd (transmit_file_loop w filename pos (Suc a)) = None"
  proof (rule Suc.hyps(1))
    show "n = k - Suc a" using Suc.hyps(2) by simp
    show "sbd_send_file w k = Inr True" by (rule Suc.prems(1))
    show "k < max_tries" by (rule Suc.prems(2))
    show "Suc a \<le> k" using lt by simp
    show "sbd_send_file w j = Inr False" if "Suc a \<le> j" "j < k" for j
      using that Suc.prems(4) [of j] by simp
  qed
  moreover obtain t x where t: "transmit_file_loop w filename pos (Suc a) = (t, x)"
    by (cases "transmit_file_loop w filename pos (Suc a)")
  moreover from lt Suc.prems have "a < max_tries" by simp
  ultimately show ?case
    by (simp add: transmit_file_loop.simps [of _ _ _ a] report_def invoke_def r)
qed

lemma transmit_file_loop_exhausted:
  assumes "\<And>j. j < max_tries \<Longrightarrow> sbd_send_file w j = Inr False"
  shows "snd (transmit_file_loop w filename pos a) = None"
proof (cases "snd (transmit_file_loop w filename pos a)")
  case None
  then show ?thesis .
next
  case (Some e)
  from transmit_file_loop_raised [OF Some] obtain k where
    "k < max_tries" "sbd_send_file w k = Inl e"
    by blast
  with assms [of k] show ?thesis by simp
qed

text \<open>
  C7 (as the code has it). Neither method handles exceptions: each ends with the exception
  of the first call on a collaborator that raises, and returns normally when none of the
  calls it makes raises. For \<open>acquire_and_send_gps_position\<close> the calls are, in order,
  \<open>burn_wire\<close>, \<open>strobe_timing\<close>, \<open>strobe\<close>, the first \<open>sbd_send_position\<close>, the retry
  (made only when the first attempt returned and failed), \<open>gps_pwr\<close> and \<open>modem_pwr\<close>. For
  \<open>transmit_file\<close> they are the attempts of \<open>sbd_send_file\<close>: an attempt that raises after
  falsy results ends the method with that exception; an attempt that returns a truthy
  result after falsy ones, or five falsy results, let it return normally.
\<close>

theorem exceptions_propagate:
  "snd (acquire_and_send_gps_position w) =
     first_raised
       [burn_wire w, strobe_timing w, strobe w, raised (sbd_send_position w 0),
        (case sbd_send_position w 0 of
           Inl e \<Rightarrow> None
         | Inr r \<Rightarrow> if position_ok r then None else raised (sbd_send_position w 1)),
        gps_pwr w, modem_pwr w] \<and>
   (k < max_tries \<and> (\<forall>j<k. sbd_send_file w j = Inr False) \<and> sbd_send_file w k = Inl e \<longrightarrow>
      snd (transmit_file w filename pos) = Some e) \<and>
   (k < max_tries \<and> (\<forall>j<k. sbd_send_file w j = Inr False) \<and> sbd_send_file w k = Inr True \<longrightarrow>
      snd (transmit_file w filename pos) = None) \<and>
   ((\<forall>j<max_tries. sbd_send_file w j = Inr False) \<longrightarrow>
      snd (transmit_file w filename pos) = None) \<and>
   (snd (transmit_file w filename pos) = Some e \<longrightarrow>
      (\<exists>k<max_tries. sbd_send_file w k = Inl e))"
proof -
  have a: "snd (acquire_and_send_gps_position w) =
     first_raised
       [burn_wire w, strobe_timing w, strobe w, raised (sbd_send_position w 0),
        (case sbd_send_position w 0 of
           Inl e \<Rightarrow> None
         | Inr r \<Rightarrow> if position_ok r then None else raised (sbd_send_position w 1)),
        gps_pwr w, modem_pwr w]"
    by (cases "burn_wire w"; cases "strobe_timing w"; cases "strobe w"; cases "gps_pwr w";
        cases "modem_pwr w"; cases "sbd_send_position w 0"; cases "sbd_send_position w 1")
      (simp_all add: acquire_and_send_gps_position_def report_def invoke_def raised_def)
  have b: "k < max_tries \<and> (\<forall>j<k. sbd_send_file w j = Inr False) \<and>
      sbd_send_file w k = Inl e \<longrightarrow> snd (transmit_file w filename pos) = Some e"
    using transmit_file_loop_propagates [of w k e 0 filename pos]
    by (auto simp: transmit_file_def)
  have c: "k < max_tries \<and> (\<forall>j<k. sbd_send_file w j = Inr False) \<and>
      sbd_send_file w k = Inr True \<longrightarrow> snd (transmit_file w filename pos) = None"
    using transmit_file_loop_succeeds [of w k 0 filename pos]
    by (auto simp: transmit_file_def)
  have d: "(\<forall>j<max_tries. sbd_send_file w j = Inr False) \<longrightarrow>
      snd (transmit_file w filename pos) = None"
    using transmit_file_loop_exhausted [of w filename pos 0]
    by (auto simp: transmit_file_def)
  have f: "snd (transmit_file w filename pos) = Some e \<longrightarrow>
      (\<exists>k<max_tries. sbd_send_file w k = Inl e)"
    using transmit_file_loop_raised [of w filename pos 0 e]
    by (auto simp: transmit_file_def)
  from a b c d f show ?thesis by blast
qed

theorem exceptions_propagate_witness:
  "snd (acquire_and_send_gps_position (modem_retry_down\<lparr>modem_pwr := Some OSError\<rparr>)) =
     Some ValueError \<and>
   snd (acquire_and_send_gps_position
          ((returning (\<lambda>k. (True, True)) (\<lambda>k. False))\<lparr>modem_pwr := Some OSError\<rparr>)) =
     Some OSError \<and>
   (2::nat) < max_tries \<and> sbd_send_file modem_retry_down 0 = Inr False \<and>
   sbd_send_file modem_retry_down 1 = Inr False \<and>
   sbd_send_file modem_retry_down 2 = Inl OSError \<and>
   snd (transmit_file modem_retry_down ''data.txt'' 0) = Some OSError"
proof -
  have h: "(2::nat) < max_tries \<and> (\<forall>j<2. sbd_send_file modem_retry_down j = Inr False) \<and>
      sbd_send_file modem_retry_down 2 = Inl OSError"
    by (simp add: modem_retry_down_def max_tries_def)
  from exceptions_propagate [of "modem_retry_down\<lparr>modem_pwr := Some OSError\<rparr>" 2 OSError
      "''data.txt''" 0]
    exceptions_propagate [of "(returning (\<lambda>k. (True, True)) (\<lambda>k. False))\<lparr>modem_pwr := Some OSError\<rparr>"
      2 OSError "''data.txt''" 0]
    exceptions_propagate [of modem_retry_down 2 OSError "''data.txt''" 0] h
  show ?thesis
    by (simp add: modem_retry_down_def returning_def raised_def position_ok_def max_tries_def)
qed

text \<open>
  With a modem whose transmissions raise \<open>OSError\<close>, both methods end with \<open>OSError\<close>.
\<close>

theorem collaborator_exception_escapes:
  "snd (transmit_file modem_down ''data.txt'' 0) = Some OSError \<and>
   snd (acquire_and_send_gps_position modem_down) = Some OSError"
  by (simp add: transmit_file_def transmit_file_loop.simps [of _ _ _ 0] max_tries_def
      acquire_and_send_gps_position_def report_def invoke_def modem_down_def)

section \<open>Properties of the sampling\<close>

lemma keller_read_not_a_pair:
  "fst (KellerLD_read k io) = Inr b \<Longrightarrow>
     read_pressure scaled \<lparr>Temp_sensor = t, Pressure_sensor = keller_sensor k io\<rparr> = ([], Inl TypeError)"
  by (simp add: read_pressure_def keller_sensor_def unpack2_def)

text \<open>
  C8 (what the code does). When both reads raise \<open>OSError\<close>, \<open>sample\<close> logs the two
  warnings and returns \<open>nan\<close> for all three values. But when the temperature read raises
  \<open>OSError\<close> and the pressure sensor is a \<open>KellerLD\<close> whose \<open>read()\<close> returns, \<open>sample\<close>
  does not return: \<open>read()\<close> yields a bool, the assignment \<open>p, pt = ...\<close> raises
  \<open>TypeError\<close>, and the handler for \<open>OSError\<close> lets it pass.
\<close>

theorem sample_keller_type_error:
  assumes "fst (KellerLD_read k io) = Inr b"
  shows "sample scaled \<lparr>Temp_sensor = Some (Inl OSError), Pressure_sensor = keller_sensor k io\<rparr>
           current_time =
         ([Log WARNING ''Error reading temperature sensor.''], Inl TypeError) \<and>
       sample scaled \<lparr>Temp_sensor = Some (Inl OSError), Pressure_sensor = Some (Inl OSError)\<rparr>
           current_time =
         ([Log WARNING ''Error reading temperature sensor.'',
           Log WARNING ''Error reading pressure sensor.'',
           Log DEBUG (''TP sampled at '' @ current_time), Log INFO ''Logged TP''],
          Inr (current_time, PyNaN, PyNaN, PyNaN))"
  using keller_read_not_a_pair [OF assms, of scaled "Some (Inl OSError)"]
  by (simp add: sample_def read_temperature_def read_pressure_def is_number_def)

theorem sample_keller_type_error_witness:
  "fst (KellerLD_read keller_ready bus_measurement) = Inr True \<and>
   sample (\<lambda>p. p / 100 - 10) \<lparr>Temp_sensor = Some (Inl OSError),
           Pressure_sensor = keller_sensor keller_ready bus_measurement\<rparr> ''20241022_120000'' =
     ([Log WARNING ''Error reading temperature sensor.''], Inl TypeError) \<and>
   fst (KellerLD_read keller_ready bus_checksum_error) = Inr False \<and>
   sample (\<lambda>p. p / 100 - 10) \<lparr>Temp_sensor = Some (Inr (PyFloat 4)),
           Pressure_sensor = keller_sensor keller_ready bus_checksum_error\<rparr> ''20241022_120000'' =
     ([], Inl TypeError)"
proof -
  have a: "fst (KellerLD_read keller_ready bus_measurement) = Inr True"
    by (simp add: KellerLD_read_def keller_ready_def bus_measurement_def)
  have b: "fst (KellerLD_read keller_ready bus_checksum_error) = Inr False"
    by (simp add: KellerLD_read_def keller_ready_def bus_checksum_error_def)
  have c: "sample (\<lambda>p. p / 100 - 10) \<lparr>Temp_sensor = Some (Inr (PyFloat 4)),
           Pressure_sensor = keller_sensor keller_ready bus_checksum_error\<rparr> ''20241022_120000'' =
     ([], Inl TypeError)"
    using keller_read_not_a_pair [OF b, of "\<lambda>p. p / 100 - 10" "Some (Inr (PyFloat 4))"]
    by (simp add: sample_def read_temperature_def)
  from sample_keller_type_error [OF a, of "\<lambda>p. p / 100 - 10" "''20241022_120000''"] a b c show ?thesis
    by simp
qed

end
